theory Spec2Isabelle
  imports Main
begin

section \<open>Block detection of the Run Code Block extension (src/out/extension.js)\<close>

text \<open>
  The detection functions \<open>findMarkdownBlocks\<close> and \<open>findSourceBlocks\<close> read a host
  document through \<open>lineCount\<close>, \<open>lineAt(i).text\<close>, \<open>lineAt(i).isEmptyOrWhitespace\<close> and
  \<open>languageId\<close>. A document is modelled by its language identifier and the list of
  its lines; \<open>lineCount\<close> is the length of that list. Line numbers stored in blocks are
  integers, because \<open>lineCount - 1\<close> is computed without a guard; loop cursors are
  natural numbers. The object literals \<open>RUNNERS\<close> and \<open>aliases\<close> are given by their
  own properties; a read \<open>obj[key]\<close> also finds the properties that every object
  literal inherits from \<open>Object.prototype\<close>.
\<close>

subsection \<open>Data model\<close>

record textLine =
  lineText :: string
  isEmptyOrWhitespace :: bool

record textDocument =
  documentLanguageId :: string
  documentLines :: "textLine list"

record runnerConfig =
  command :: string
  ext :: string

record codeBlock =
  startLine :: int
  endLine :: int
  languageId :: string
  code :: string
  lensLine :: int

record sectionRange =
  start :: int
  end' :: int

definition lineCount :: "textDocument \<Rightarrow> nat" where
  "lineCount document = length (documentLines document)"

subsection \<open>Strings\<close>

definition backtick :: char where
  "backtick = CHR 0x60"

definition fence :: string where
  "fence = [backtick, backtick, backtick]"

definition newline :: string where
  "newline = [CHR 0x0A]"

text \<open>\<open>s.startsWith(p)\<close>\<close>

definition startsWith :: "string \<Rightarrow> string \<Rightarrow> bool" where
  "startsWith s p = (take (length p) s = p)"

text \<open>The regular expression class \<open>\w\<close> (no unicode flag): \<open>[A-Za-z0-9_]\<close>.\<close>

definition isWordChar :: "char \<Rightarrow> bool" where
  "isWordChar c =
     (let n = (of_char c :: nat)
      in (48 \<le> n \<and> n \<le> 57) \<or> (65 \<le> n \<and> n \<le> 90) \<or> n = 95 \<or> (97 \<le> n \<and> n \<le> 122))"

text \<open>
  \<open>toLowerCase\<close> on a run of word characters, the only strings the program applies it
  to (line 59, on the capture of \<open>\w+\<close>): the letters \<open>A\<close> to \<open>Z\<close> become \<open>a\<close> to
  \<open>z\<close>; digits, the underscore and the small letters have no other lower-case form.
\<close>

definition toLowerChar :: "char \<Rightarrow> char" where
  "toLowerChar c =
     (let n = (of_char c :: nat)
      in if 65 \<le> n \<and> n \<le> 90 then char_of (n + 32) else c)"

definition toLowerCase_word :: "string \<Rightarrow> string" where
  "toLowerCase_word s = map toLowerChar s"

text \<open>\<open>lines.join(sep)\<close>\<close>

fun join :: "string \<Rightarrow> string list \<Rightarrow> string" where
  "join sep [] = []"
| "join sep [x] = x"
| "join sep (x # y # ys) = x @ sep @ join sep (y # ys)"

subsection \<open>Object literals read by key\<close>

text \<open>
  \<open>RUNNERS\<close> and \<open>aliases\<close> are object literals, so their prototype is
  \<open>Object.prototype\<close>. A read \<open>obj[key]\<close> gives the own property of that name, else the
  property of that name on \<open>Object.prototype\<close>, else \<open>undefined\<close>. The names on
  \<open>Object.prototype\<close> are those of ECMAScript together with the legacy accessors of its
  Annex B, which the engine of the extension host has. The inherited values are
  functions, and for \<open>__proto__\<close> the object \<open>Object.prototype\<close> itself: none is a
  string, none is \<open>null\<close> or \<open>undefined\<close>, and all are truthy.
\<close>

definition objectPrototypeNames :: "string list" where
  "objectPrototypeNames =
     [''constructor'', ''__defineGetter__'', ''__defineSetter__'', ''hasOwnProperty'',
      ''__lookupGetter__'', ''__lookupSetter__'', ''isPrototypeOf'',
      ''propertyIsEnumerable'', ''toString'', ''valueOf'', ''__proto__'',
      ''toLocaleString'']"

datatype 'a property = Own 'a | Inherited string | Undefined

definition getProperty :: "(string \<rightharpoonup> 'a) \<Rightarrow> string \<Rightarrow> 'a property" where
  "getProperty obj key =
     (case obj key of
        Some v \<Rightarrow> Own v
      | None \<Rightarrow> if key \<in> set objectPrototypeNames then Inherited key else Undefined)"

subsection \<open>Runner table and language helpers\<close>

text \<open>The own properties of \<open>RUNNERS\<close> (lines 39 to 54).\<close>

definition RUNNERS :: "string \<rightharpoonup> runnerConfig" where
  \<open>RUNNERS = map_of
     [(''javascript'', \<lparr>command = ''node "{file}"'', ext = ''.js''\<rparr>),
      (''typescript'', \<lparr>command = ''npx ts-node "{file}"'', ext = ''.ts''\<rparr>),
      (''python'', \<lparr>command = ''python3 "{file}"'', ext = ''.py''\<rparr>),
      (''shellscript'', \<lparr>command = ''bash "{file}"'', ext = ''.sh''\<rparr>),
      (''ruby'', \<lparr>command = ''ruby "{file}"'', ext = ''.rb''\<rparr>),
      (''go'', \<lparr>command = ''go run "{file}"'', ext = ''.go''\<rparr>),
      (''rust'', \<lparr>command = ''rustc "{file}" -o "{file}.out" && "{file}.out"'', ext = ''.rs''\<rparr>),
      (''java'', \<lparr>command = ''java "{file}"'', ext = ''.java''\<rparr>),
      (''c'', \<lparr>command = ''gcc "{file}" -o "{file}.out" && "{file}.out"'', ext = ''.c''\<rparr>),
      (''cpp'', \<lparr>command = ''g++ "{file}" -o "{file}.out" && "{file}.out"'', ext = ''.cpp''\<rparr>),
      (''php'', \<lparr>command = ''php "{file}"'', ext = ''.php''\<rparr>),
      (''perl'', \<lparr>command = ''perl "{file}"'', ext = ''.pl''\<rparr>),
      (''lua'', \<lparr>command = ''lua "{file}"'', ext = ''.lua''\<rparr>),
      (''r'', \<lparr>command = ''Rscript "{file}"'', ext = ''.R''\<rparr>)]\<close>

text \<open>
  The test \<open>/^```\w+/.test(lineText)\<close>: the line starts with three backticks and a word
  character follows them.
\<close>

definition opensFence :: "string \<Rightarrow> bool" where
  "opensFence line =
     (startsWith line fence \<and> (case drop 3 line of [] \<Rightarrow> False | c # _ \<Rightarrow> isWordChar c))"

text \<open>
  \<open>detectMarkdownLang\<close>: \<open>line.match(/^```(\w+)/)\<close>; the capture is the longest run of
  word characters after the backticks, and \<open>undefined\<close> is \<open>None\<close>.
\<close>

definition detectMarkdownLang :: "string \<Rightarrow> string option" where
  "detectMarkdownLang line =
     (if opensFence line then Some (toLowerCase_word (takeWhile isWordChar (drop 3 line)))
      else None)"

text \<open>The own properties of \<open>aliases\<close> (lines 63 to 74).\<close>

definition aliases :: "string \<rightharpoonup> string" where
  "aliases = map_of
     [(''js'', ''javascript''),
      (''ts'', ''typescript''),
      (''py'', ''python''),
      (''sh'', ''shellscript''),
      (''bash'', ''shellscript''),
      (''zsh'', ''shellscript''),
      (''rb'', ''ruby''),
      (''rs'', ''rust''),
      (''c++'', ''cpp''),
      (''cxx'', ''cpp'')]"

text \<open>
  \<open>normalizeLangId\<close>: \<open>aliases[lang] ?? lang\<close>. The result is a string, or the value of
  the member of \<open>Object.prototype\<close> that \<open>lang\<close> names (the right operand of \<open>??\<close> is
  taken only for \<open>null\<close> and \<open>undefined\<close>).
\<close>

datatype langValue = StringValue string | MemberValue string

definition normalizeLangId :: "string \<Rightarrow> langValue" where
  "normalizeLangId lang =
     (case getProperty aliases lang of
        Own canonical \<Rightarrow> StringValue canonical
      | Inherited name \<Rightarrow> MemberValue name
      | Undefined \<Rightarrow> StringValue lang)"

subsection \<open>Fenced blocks of a markdown document\<close>

text \<open>
  The inner loop of \<open>findMarkdownBlocks\<close> (lines 102 to 104): the cursor moves on while
  the line does not start with three backticks.
\<close>

function findClosingFence :: "textLine list \<Rightarrow> nat \<Rightarrow> nat" where
  "findClosingFence ls i =
     (if i < length ls \<and> \<not> startsWith (lineText (ls ! i)) fence
      then findClosingFence ls (i + 1) else i)"
  by pat_completeness auto
termination
  by (relation "measure (\<lambda>(ls, i). length ls - i)") auto

declare findClosingFence.simps [simp del]

lemma findClosingFence_ge: "i \<le> findClosingFence ls i"
proof (induction ls i rule: findClosingFence.induct)
  case (1 ls i)
  show ?case
  proof (cases "i < length ls \<and> \<not> startsWith (lineText (ls ! i)) fence")
    case True
    with "1.IH" have "i + 1 \<le> findClosingFence ls (i + 1)" by simp
    with True show ?thesis by (subst findClosingFence.simps) simp
  next
    case False
    then show ?thesis by (subst findClosingFence.simps) auto
  qed
qed

lemma findClosingFence_decreases:
  "i < length ls \<Longrightarrow> length ls - Suc (findClosingFence ls (Suc i)) < length ls - i"
  using findClosingFence_ge [of "Suc i" ls] by simp

text \<open>The text of the lines \<open>s\<close> to \<open>e\<close> (the loops at lines 108 and 171).\<close>

definition linesBetween :: "textLine list \<Rightarrow> int \<Rightarrow> int \<Rightarrow> string list" where
  "linesBetween ls s e = map (\<lambda>l. lineText (ls ! nat l)) [s..e]"

text \<open>
  The outer loop of \<open>findMarkdownBlocks\<close> (lines 93 to 115); \<open>i'\<close> is the cursor after the
  inner loop. When \<open>languageId\<close> is not a string but a function or \<open>Object.prototype\<close>,
  the key of the read \<open>RUNNERS[languageId]\<close> is the text of that value
  (\<open>function Object() { [native code] }\<close>, \<open>[object Object]\<close>), which names no property of
  \<open>RUNNERS\<close>, own or inherited: the read gives \<open>undefined\<close> and no block is pushed.
\<close>

function findMarkdownBlocks_loop ::
  "textLine list \<Rightarrow> nat \<Rightarrow> codeBlock list \<Rightarrow> codeBlock list" where
  "findMarkdownBlocks_loop ls i blocks =
     (if i < length ls then
        (if opensFence (lineText (ls ! i)) then
           (let rawLang = (case detectMarkdownLang (lineText (ls ! i)) of
                             Some lang \<Rightarrow> lang | None \<Rightarrow> ''shellscript'');
                languageId = normalizeLangId rawLang;
                lensLine = int i;
                startLine = int i + 1;
                i' = findClosingFence ls (i + 1);
                endLine = int i' - 1
            in findMarkdownBlocks_loop ls (i' + 1)
                 (case languageId of
                    StringValue lang \<Rightarrow>
                      if endLine \<ge> startLine \<and> getProperty RUNNERS lang \<noteq> Undefined
                      then blocks @ [\<lparr>startLine = startLine, endLine = endLine,
                                       languageId = lang,
                                       code = join newline (linesBetween ls startLine endLine),
                                       lensLine = lensLine\<rparr>]
                      else blocks
                  | MemberValue member \<Rightarrow> blocks))
         else findMarkdownBlocks_loop ls (i + 1) blocks)
      else blocks)"
  by pat_completeness auto
termination
  by (relation "measure (\<lambda>(ls, i, blocks). length ls - i)")
    (simp_all add: findClosingFence_decreases)

declare findMarkdownBlocks_loop.simps [simp del]

definition findMarkdownBlocks :: "textDocument \<Rightarrow> codeBlock list" where
  "findMarkdownBlocks document = findMarkdownBlocks_loop (documentLines document) 0 []"

subsection \<open>Whole file and sections of a source document\<close>

text \<open>
  The look-ahead of \<open>findSourceBlocks\<close> (lines 139 to 144): \<open>blankCount\<close> and \<open>j\<close> advance
  together over the run of blank lines; the result is the pair of both.
\<close>

function countBlankRun :: "textLine list \<Rightarrow> nat \<Rightarrow> nat \<Rightarrow> nat \<times> nat" where
  "countBlankRun ls blankCount j =
     (if j < length ls \<and> isEmptyOrWhitespace (ls ! j)
      then countBlankRun ls (blankCount + 1) (j + 1) else (blankCount, j))"
  by pat_completeness auto
termination
  by (relation "measure (\<lambda>(ls, blankCount, j). length ls - j)") auto

declare countBlankRun.simps [simp del]

lemma countBlankRun_advance:
  "countBlankRun ls blankCount j = (blankCount', j') \<Longrightarrow>
     blankCount \<le> blankCount' \<and> j' = j + (blankCount' - blankCount)"
proof (induction ls blankCount j rule: countBlankRun.induct)
  case (1 ls blankCount j)
  show ?case
  proof (cases "j < length ls \<and> isEmptyOrWhitespace (ls ! j)")
    case True
    with "1.prems" have "countBlankRun ls (blankCount + 1) (j + 1) = (blankCount', j')"
      by (subst (asm) countBlankRun.simps) simp
    with "1.IH" True show ?thesis by fastforce
  next
    case False
    with "1.prems" show ?thesis by (subst (asm) countBlankRun.simps) auto
  qed
qed

text \<open>
  The \<open>for\<close> loop of \<open>findSourceBlocks\<close> (lines 130 to 151). \<open>sectionStart\<close> is \<open>null\<close>
  (\<open>None\<close>) or a line number. After \<open>i = j - 1\<close> the loop header adds one.
\<close>

function findSections_loop ::
  "textLine list \<Rightarrow> nat \<Rightarrow> nat option \<Rightarrow> sectionRange list \<Rightarrow> nat option \<times> sectionRange list"
  where
  "findSections_loop ls i sectionStart sections =
     (if i < length ls then
        (if \<not> isEmptyOrWhitespace (ls ! i) then
           findSections_loop ls (i + 1)
             (case sectionStart of None \<Rightarrow> Some i | Some s \<Rightarrow> Some s) sections
         else
           (case sectionStart of
              None \<Rightarrow> findSections_loop ls (i + 1) None sections
            | Some s \<Rightarrow>
                (case countBlankRun ls 0 i of
                   (blankCount, j) \<Rightarrow>
                     if blankCount \<ge> 2
                     then findSections_loop ls ((j - 1) + 1) None
                            (sections @ [\<lparr>start = int s, end' = int i - 1\<rparr>])
                     else findSections_loop ls (i + 1) (Some s) sections)))
      else (sectionStart, sections))"
  by pat_completeness auto
termination
  by (relation "measure (\<lambda>(ls, i, sectionStart, sections). length ls - i)")
    (auto dest!: countBlankRun_advance [OF sym])

declare findSections_loop.simps [simp del]

text \<open>Lines 128 to 154: the sections of the document, the open one closed at the last line.\<close>

definition findSections :: "textLine list \<Rightarrow> sectionRange list" where
  "findSections ls =
     (case findSections_loop ls 0 None [] of
        (sectionStart, sections) \<Rightarrow>
          (case sectionStart of
             Some s \<Rightarrow> sections @ [\<lparr>start = int s, end' = int (length ls) - 1\<rparr>]
           | None \<Rightarrow> sections))"

definition wholeFileBlock :: "textDocument \<Rightarrow> codeBlock" where
  "wholeFileBlock document =
     \<lparr>startLine = 0,
      endLine = int (lineCount document) - 1,
      languageId = documentLanguageId document,
      code = join newline
               (map (\<lambda>i. lineText (documentLines document ! i)) [0..<lineCount document]),
      lensLine = 0\<rparr>"

definition sectionBlock :: "textDocument \<Rightarrow> sectionRange \<Rightarrow> codeBlock" where
  "sectionBlock document sec =
     \<lparr>startLine = start sec,
      endLine = end' sec,
      languageId = documentLanguageId document,
      code = join newline (linesBetween (documentLines document) (start sec) (end' sec)),
      lensLine = start sec\<rparr>"

definition findSourceBlocks :: "textDocument \<Rightarrow> codeBlock list" where
  "findSourceBlocks document =
     (if getProperty RUNNERS (documentLanguageId document) = Undefined then []
      else
        (let sections = findSections (documentLines document);
             blocks = [wholeFileBlock document]
         in if length sections > 1
            then blocks @ map (sectionBlock document) sections
            else blocks))"

definition findCodeBlocks :: "textDocument \<Rightarrow> codeBlock list" where
  "findCodeBlocks document =
     (if documentLanguageId document = ''markdown'' then findMarkdownBlocks document
      else findSourceBlocks document)"

subsection \<open>Lines for concrete documents\<close>

text \<open>
  A line with the given text that the host reports as not blank (used with texts that
  hold a character other than white space), and the empty line, which the host reports
  as blank.
\<close>

definition contentLine :: "string \<Rightarrow> textLine" where
  "contentLine t = \<lparr>lineText = t, isEmptyOrWhitespace = False\<rparr>"

definition blankLine :: textLine where
  "blankLine = \<lparr>lineText = [], isEmptyOrWhitespace = True\<rparr>"

text \<open>
  Documents used as concrete inputs: a fence that is never closed; a closed fence and
  after it a fence that is never closed; two closed fences with a line between them; two sections and one blank line after the last one; the lines
  \<open>a\<close>, blank, blank, \<open>b\<close>; and the lines \<open>a\<close>, blank, \<open>b\<close>.
\<close>

definition unterminatedFence :: textDocument where
  "unterminatedFence =
     \<lparr>documentLanguageId = ''markdown'',
      documentLines =
        [contentLine ''intro'', contentLine (fence @ ''python''), contentLine ''print(1)'']\<rparr>"

definition secondFenceOpen :: textDocument where
  "secondFenceOpen =
     \<lparr>documentLanguageId = ''markdown'',
      documentLines =
        [contentLine (fence @ ''python''), contentLine ''a'', contentLine fence,
         contentLine (fence @ ''js''), contentLine ''b'']\<rparr>"

definition twoFences :: textDocument where
  "twoFences =
     \<lparr>documentLanguageId = ''markdown'',
      documentLines =
        [contentLine (fence @ ''python''), contentLine ''print(1)'', contentLine fence,
         contentLine ''text'',
         contentLine (fence @ ''sh''), contentLine ''echo hi'', contentLine fence]\<rparr>"

definition trailingBlank :: textDocument where
  "trailingBlank =
     \<lparr>documentLanguageId = ''python'',
      documentLines = [contentLine ''a'', blankLine, blankLine, contentLine ''b'', blankLine]\<rparr>"

definition doubleBlank :: textDocument where
  "doubleBlank =
     \<lparr>documentLanguageId = ''python'',
      documentLines = [contentLine ''a'', blankLine, blankLine, contentLine ''b'']\<rparr>"

definition singleBlank :: textDocument where
  "singleBlank =
     \<lparr>documentLanguageId = ''python'',
      documentLines = [contentLine ''a'', blankLine, contentLine ''b'']\<rparr>"

subsection \<open>Sections as the specification words them\<close>

text \<open>
  The specification counts the maximal non-blank sections, where only a run of two or
  more blank lines splits. Stated on the lines alone: a section starts at a line that is
  not blank and that either has only blank lines before it or comes right after two
  blank lines. \<open>spec_sectionCount\<close> is the number of such lines. These two definitions
  follow the specification's words; they are compared with the sections the code finds.
\<close>

definition spec_sectionStart :: "textLine list \<Rightarrow> nat \<Rightarrow> bool" where
  "spec_sectionStart ls k =
     (\<not> isEmptyOrWhitespace (ls ! k)
      \<and> (list_all isEmptyOrWhitespace (take k ls)
         \<or> (2 \<le> k \<and> isEmptyOrWhitespace (ls ! (k - 1)) \<and> isEmptyOrWhitespace (ls ! (k - 2)))))"

definition spec_sectionCount :: "textLine list \<Rightarrow> nat" where
  "spec_sectionCount ls = length (filter (spec_sectionStart ls) [0..<length ls])"

subsection \<open>Auxiliary definitions for the proofs\<close>

text \<open>
  The value of \<open>languageId\<close> as lines 96 and 97 compute it, the list of at most one
  block that lines 105 to 112 add for the fence at line \<open>i\<close>, and the scan started at
  cursor \<open>i\<close> with no block found yet.
\<close>

definition fenceLanguage :: "string \<Rightarrow> langValue" where
  "fenceLanguage line =
     normalizeLangId (case detectMarkdownLang line of Some lang \<Rightarrow> lang | None \<Rightarrow> ''shellscript'')"

definition fencedBlocks :: "textLine list \<Rightarrow> nat \<Rightarrow> codeBlock list" where
  "fencedBlocks ls i =
     (case fenceLanguage (lineText (ls ! i)) of
        StringValue lang \<Rightarrow>
          if int (findClosingFence ls (i + 1)) - 1 \<ge> int i + 1
             \<and> getProperty RUNNERS lang \<noteq> Undefined
          then [\<lparr>startLine = int i + 1,
                 endLine = int (findClosingFence ls (i + 1)) - 1,
                 languageId = lang,
                 code = join newline
                          (linesBetween ls (int i + 1) (int (findClosingFence ls (i + 1)) - 1)),
                 lensLine = int i\<rparr>]
          else []
      | MemberValue member \<Rightarrow> [])"

definition scanFrom :: "textLine list \<Rightarrow> nat \<Rightarrow> codeBlock list" where
  "scanFrom ls i = findMarkdownBlocks_loop ls i []"

text \<open>
  The values the cursor \<open>i\<close> of the outer loop takes at the loop head (line 93): it
  starts at 0; from a line that does not pass the test of line 95 it moves to the next
  line; from a line that passes it, it moves past the line at which the inner loop
  stops. A line that passes the test is an opening fence when the scan stands at it; a
  line that the inner loop runs over, or stops at, is never examined by line 95.
\<close>

inductive scanStandsAt :: "textLine list \<Rightarrow> nat \<Rightarrow> bool" for ls :: "textLine list" where
  start: "scanStandsAt ls 0"
| skip: "scanStandsAt ls i \<Longrightarrow> i < length ls \<Longrightarrow> \<not> opensFence (lineText (ls ! i)) \<Longrightarrow>
     scanStandsAt ls (i + 1)"
| fence: "scanStandsAt ls i \<Longrightarrow> i < length ls \<Longrightarrow> opensFence (lineText (ls ! i)) \<Longrightarrow>
     scanStandsAt ls (findClosingFence ls (i + 1) + 1)"

code_pred scanStandsAt .

text \<open>
  The state of the section loop at cursor \<open>i\<close>. With no open section, the lines before
  the cursor are all blank or the two lines before it are blank. With a section open at
  \<open>s\<close>, line \<open>s\<close> is not blank, and when the line before the cursor is blank it is
  a single blank line between two lines that are not blank (or the last line).
\<close>

definition cursorInv :: "textLine list \<Rightarrow> nat \<Rightarrow> nat option \<Rightarrow> bool" where
  "cursorInv ls i sectionStart =
     (case sectionStart of
        None \<Rightarrow>
          list_all isEmptyOrWhitespace (take i ls)
          \<or> (2 \<le> i \<and> isEmptyOrWhitespace (ls ! (i - 1)) \<and> isEmptyOrWhitespace (ls ! (i - 2)))
      | Some s \<Rightarrow>
          s < i \<and> \<not> isEmptyOrWhitespace (ls ! s)
          \<and> (isEmptyOrWhitespace (ls ! (i - 1)) \<longrightarrow>
               2 \<le> i \<and> \<not> isEmptyOrWhitespace (ls ! (i - 2))
               \<and> (i < length ls \<longrightarrow> \<not> isEmptyOrWhitespace (ls ! i))))"

text \<open>
  Lines 152 to 154 applied to the result of the loop, and the shape of a section that
  the proofs maintain.
\<close>

definition closeOpenSection ::
  "textLine list \<Rightarrow> nat option \<times> sectionRange list \<Rightarrow> sectionRange list" where
  "closeOpenSection ls r =
     (case r of
        (sectionStart, sections) \<Rightarrow>
          (case sectionStart of
             Some s \<Rightarrow> sections @ [\<lparr>start = int s, end' = int (length ls) - 1\<rparr>]
           | None \<Rightarrow> sections))"

definition sectionOk :: "textLine list \<Rightarrow> sectionRange \<Rightarrow> bool" where
  "sectionOk ls sec =
     (0 \<le> start sec \<and> start sec \<le> end' sec \<and> end' sec \<le> int (length ls) - 1
      \<and> \<not> isEmptyOrWhitespace (ls ! nat (start sec))
      \<and> (isEmptyOrWhitespace (ls ! nat (end' sec)) \<longrightarrow>
           end' sec = int (length ls) - 1 \<and> 0 < end' sec
           \<and> \<not> isEmptyOrWhitespace (ls ! nat (end' sec - 1))))"

section \<open>Properties\<close>

subsection \<open>The language helpers\<close>

lemma toLowerChar_idem: "toLowerChar (toLowerChar c) = toLowerChar c"
  by (simp add: toLowerChar_def Let_def)

lemma toLowerCase_word_idem: "toLowerCase_word (toLowerCase_word s) = toLowerCase_word s"
  by (simp add: toLowerCase_word_def toLowerChar_idem)

lemma RUNNERS_markdown: "RUNNERS ''markdown'' = None"
  by (simp add: RUNNERS_def)

lemma RUNNERS_python: "RUNNERS ''python'' \<noteq> None"
  by (simp add: RUNNERS_def)

lemma getProperty_own: "obj key \<noteq> None \<Longrightarrow> getProperty obj key \<noteq> Undefined"
  by (auto simp: getProperty_def)

lemma getProperty_undefined:
  "getProperty obj key = Undefined \<longleftrightarrow> obj key = None \<and> key \<notin> set objectPrototypeNames"
  by (auto simp: getProperty_def split: option.splits)

lemma fenceLanguage_opening:
  "opensFence line \<Longrightarrow>
     fenceLanguage line = normalizeLangId (toLowerCase_word (takeWhile isWordChar (drop 3 line)))"
  by (simp add: fenceLanguage_def detectMarkdownLang_def)

text \<open>
  What \<open>normalizeLangId\<close> does on a name that is an own key of \<open>aliases\<close>, and on a name
  that is no property of \<open>aliases\<close> at all.
\<close>

lemma normalizeLangId_alias:
  "aliases lang = Some canonical \<Longrightarrow> normalizeLangId lang = StringValue canonical"
  by (simp add: normalizeLangId_def getProperty_def)

lemma normalizeLangId_unchanged:
  "aliases lang = None \<Longrightarrow> lang \<notin> set objectPrototypeNames \<Longrightarrow>
     normalizeLangId lang = StringValue lang"
  by (simp add: normalizeLangId_def getProperty_def)

text \<open>
  Claim C4 at the tag \<open>constructor\<close>. The fence line \<open>```constructor\<close> passes the test of
  line 95 and \<open>detectMarkdownLang\<close> gives the tag \<open>constructor\<close>, which is no own key of
  \<open>aliases\<close>. The read \<open>aliases[lang]\<close> finds the member that every object inherits, so
  \<open>normalizeLangId\<close> returns that member and not the string \<open>constructor\<close>.
\<close>

theorem normalizeLangId_returns_inherited_member:
  "opensFence (fence @ ''constructor'')
   \<and> detectMarkdownLang (fence @ ''constructor'') = Some ''constructor''
   \<and> aliases ''constructor'' = None
   \<and> normalizeLangId ''constructor'' = MemberValue ''constructor''
   \<and> normalizeLangId ''constructor'' \<noteq> StringValue ''constructor''"
  by code_simp

subsection \<open>The scan of a markdown document\<close>

lemma mdLoop_unfold:
  "findMarkdownBlocks_loop ls i blocks =
     (if i < length ls then
        (if opensFence (lineText (ls ! i))
         then findMarkdownBlocks_loop ls (findClosingFence ls (i + 1) + 1)
                (blocks @ fencedBlocks ls i)
         else findMarkdownBlocks_loop ls (i + 1) blocks)
      else blocks)"
  by (subst findMarkdownBlocks_loop.simps)
     (auto simp: Let_def fencedBlocks_def fenceLanguage_def split: langValue.splits)

lemma mdLoop_append:
  "findMarkdownBlocks_loop ls i blocks = blocks @ findMarkdownBlocks_loop ls i []"
proof (induction "length ls - i" arbitrary: i blocks rule: less_induct)
  case less
  show ?case
  proof (cases "i < length ls")
    case False
    then show ?thesis by (simp add: mdLoop_unfold [of ls i])
  next
    case True
    show ?thesis
    proof (cases "opensFence (lineText (ls ! i))")
      case False
      from True have "length ls - (i + 1) < length ls - i" by simp
      from less [OF this] have "findMarkdownBlocks_loop ls (i + 1) blocks =
          blocks @ findMarkdownBlocks_loop ls (i + 1) []" .
      moreover have "findMarkdownBlocks_loop ls i blocks = findMarkdownBlocks_loop ls (i + 1) blocks"
        using True False by (simp add: mdLoop_unfold [of ls i])
      moreover have "findMarkdownBlocks_loop ls i [] = findMarkdownBlocks_loop ls (i + 1) []"
        using True False by (simp add: mdLoop_unfold [of ls i])
      ultimately show ?thesis by simp
    next
      case fence: True
      define j where "j = findClosingFence ls (i + 1)"
      have "i + 1 \<le> j" unfolding j_def by (rule findClosingFence_ge)
      with True have "length ls - (j + 1) < length ls - i" by simp
      from less [OF this] have step: "\<And>bs. findMarkdownBlocks_loop ls (j + 1) bs =
          bs @ findMarkdownBlocks_loop ls (j + 1) []" .
      have "findMarkdownBlocks_loop ls i blocks =
          findMarkdownBlocks_loop ls (j + 1) (blocks @ fencedBlocks ls i)"
        using True fence by (simp add: mdLoop_unfold [of ls i] j_def)
      also have "\<dots> = blocks @ fencedBlocks ls i @ findMarkdownBlocks_loop ls (j + 1) []"
        using step [of "blocks @ fencedBlocks ls i"] by simp
      also have "fencedBlocks ls i @ findMarkdownBlocks_loop ls (j + 1) [] =
          findMarkdownBlocks_loop ls (j + 1) (fencedBlocks ls i)"
        using step [of "fencedBlocks ls i"] by simp
      also have "\<dots> = findMarkdownBlocks_loop ls i []"
        using True fence by (simp add: mdLoop_unfold [of ls i] j_def)
      finally show ?thesis .
    qed
  qed
qed

lemma scanFrom_done: "\<not> i < length ls \<Longrightarrow> scanFrom ls i = []"
  by (simp add: scanFrom_def mdLoop_unfold [of ls i])

lemma scanFrom_skip:
  "i < length ls \<Longrightarrow> \<not> opensFence (lineText (ls ! i)) \<Longrightarrow> scanFrom ls i = scanFrom ls (i + 1)"
  by (simp add: scanFrom_def mdLoop_unfold [of ls i])

lemma scanFrom_fence:
  "i < length ls \<Longrightarrow> opensFence (lineText (ls ! i)) \<Longrightarrow>
     scanFrom ls i = fencedBlocks ls i @ scanFrom ls (findClosingFence ls (i + 1) + 1)"
  unfolding scanFrom_def
  by (subst mdLoop_unfold) (simp add: mdLoop_append [of ls _ "fencedBlocks ls i"])

lemma scanFrom_induct [case_names finished skip fence]:
  assumes "\<And>i. \<not> i < length ls \<Longrightarrow> P i"
    and "\<And>i. i < length ls \<Longrightarrow> \<not> opensFence (lineText (ls ! i)) \<Longrightarrow> P (i + 1) \<Longrightarrow> P i"
    and "\<And>i. i < length ls \<Longrightarrow> opensFence (lineText (ls ! i)) \<Longrightarrow>
           P (findClosingFence ls (i + 1) + 1) \<Longrightarrow> P i"
  shows "P i"
proof (induction "length ls - i" arbitrary: i rule: less_induct)
  case less
  show ?case
  proof (cases "i < length ls")
    case False
    then show ?thesis by (rule assms(1))
  next
    case True
    show ?thesis
    proof (cases "opensFence (lineText (ls ! i))")
      case False
      from True have "length ls - (i + 1) < length ls - i" by simp
      from less [OF this] True False show ?thesis by (rule assms(2) [rotated 2])
    next
      case fence: True
      have "i + 1 \<le> findClosingFence ls (i + 1)" by (rule findClosingFence_ge)
      with True have "length ls - (findClosingFence ls (i + 1) + 1) < length ls - i" by simp
      from less [OF this] True fence show ?thesis by (rule assms(3) [rotated 2])
    qed
  qed
qed

lemma findMarkdownBlocks_scanFrom:
  "findMarkdownBlocks document = scanFrom (documentLines document) 0"
  by (simp add: findMarkdownBlocks_def scanFrom_def)

lemma findClosingFence_le: "i \<le> length ls \<Longrightarrow> findClosingFence ls i \<le> length ls"
proof (induction ls i rule: findClosingFence.induct)
  case (1 ls i)
  show ?case
  proof (cases "i < length ls \<and> \<not> startsWith (lineText (ls ! i)) fence")
    case True
    with "1.IH" have "findClosingFence ls (i + 1) \<le> length ls" by simp
    with True show ?thesis by (subst findClosingFence.simps) simp
  next
    case False
    with "1.prems" show ?thesis by (subst findClosingFence.simps) auto
  qed
qed

lemma findClosingFence_unterminated:
  "i \<le> length ls \<Longrightarrow>
   \<forall>k. i \<le> k \<and> k < length ls \<longrightarrow> \<not> startsWith (lineText (ls ! k)) fence \<Longrightarrow>
   findClosingFence ls i = length ls"
proof (induction ls i rule: findClosingFence.induct)
  case (1 ls i)
  show ?case
  proof (cases "i < length ls")
    case True
    with "1.prems" have nf: "\<not> startsWith (lineText (ls ! i)) fence" by simp
    with True "1.IH" "1.prems" have "findClosingFence ls (i + 1) = length ls" by simp
    with True nf show ?thesis by (subst findClosingFence.simps) simp
  next
    case False
    with "1.prems" show ?thesis by (subst findClosingFence.simps) auto
  qed
qed

lemma fencedBlocks_bounds:
  assumes "i < length ls" and "b \<in> set (fencedBlocks ls i)"
  shows "lensLine b = int i \<and> startLine b = int i + 1 \<and> startLine b \<le> endLine b
    \<and> endLine b = int (findClosingFence ls (i + 1)) - 1 \<and> endLine b \<le> int (length ls) - 1"
proof -
  from assms(1) have "findClosingFence ls (i + 1) \<le> length ls"
    by (intro findClosingFence_le) simp
  with assms(2) show ?thesis
    by (auto simp: fencedBlocks_def split: if_splits langValue.splits)
qed

lemma scanFrom_bounds:
  "\<forall>b \<in> set (scanFrom ls i).
     int i \<le> lensLine b \<and> lensLine b < startLine b \<and> startLine b \<le> endLine b
     \<and> endLine b \<le> int (length ls) - 1"
proof (induction i rule: scanFrom_induct [of ls])
  case (finished i)
  then show ?case by (simp add: scanFrom_done)
next
  case (skip i)
  then show ?case by (auto simp: scanFrom_skip)
next
  case (fence i)
  have "i + 1 \<le> findClosingFence ls (i + 1)" by (rule findClosingFence_ge)
  with fence show ?case
    by (auto simp: scanFrom_fence dest!: fencedBlocks_bounds [OF fence(1)])
qed

lemma scanFrom_sorted:
  "sorted_wrt (\<lambda>b1 b2. endLine b1 < lensLine b2) (scanFrom ls i)"
proof (induction i rule: scanFrom_induct [of ls])
  case (finished i)
  then show ?case by (simp add: scanFrom_done)
next
  case (skip i)
  then show ?case by (simp add: scanFrom_skip)
next
  case (fence i)
  have one: "sorted_wrt (\<lambda>b1 b2. endLine b1 < lensLine b2) (fencedBlocks ls i)"
    by (simp add: fencedBlocks_def split: langValue.splits)
  have cross: "\<forall>b1 \<in> set (fencedBlocks ls i).
      \<forall>b2 \<in> set (scanFrom ls (findClosingFence ls (i + 1) + 1)). endLine b1 < lensLine b2"
  proof (intro ballI)
    fix b1 b2
    assume "b1 \<in> set (fencedBlocks ls i)"
      and b2: "b2 \<in> set (scanFrom ls (findClosingFence ls (i + 1) + 1))"
    then have "endLine b1 = int (findClosingFence ls (i + 1)) - 1"
      using fencedBlocks_bounds [OF fence(1)] by blast
    moreover from b2 have "int (findClosingFence ls (i + 1) + 1) \<le> lensLine b2"
      using scanFrom_bounds [of ls "findClosingFence ls (i + 1) + 1"] by blast
    ultimately show "endLine b1 < lensLine b2" by simp
  qed
  from one cross fence(3) show ?case
    by (simp add: scanFrom_fence [OF fence(1,2)] sorted_wrt_append)
qed

lemma scanFrom_no_fence:
  "\<forall>l \<in> set ls. \<not> opensFence (lineText l) \<Longrightarrow> scanFrom ls i = []"
proof (induction i rule: scanFrom_induct [of ls])
  case (finished i)
  then show ?case by (simp add: scanFrom_done)
next
  case (skip i)
  then show ?case by (simp add: scanFrom_skip)
next
  case (fence i)
  then show ?case by (metis nth_mem)
qed

lemma scanStandsAt_loop:
  "scanStandsAt ls i \<Longrightarrow>
     \<exists>blocks. findMarkdownBlocks_loop ls 0 [] = findMarkdownBlocks_loop ls i blocks
       \<and> (\<forall>b \<in> set blocks. endLine b < int i)"
proof (induction rule: scanStandsAt.induct)
  case start
  have "findMarkdownBlocks_loop ls 0 [] = findMarkdownBlocks_loop ls 0 []
      \<and> (\<forall>b \<in> set ([] :: codeBlock list). endLine b < int 0)" by simp
  then show ?case by blast
next
  case (skip i)
  then obtain blocks where b: "findMarkdownBlocks_loop ls 0 [] = findMarkdownBlocks_loop ls i blocks"
    "\<forall>b \<in> set blocks. endLine b < int i" by blast
  from skip(2,3) have "findMarkdownBlocks_loop ls i blocks = findMarkdownBlocks_loop ls (i + 1) blocks"
    by (simp add: mdLoop_unfold [of ls i])
  with b have "findMarkdownBlocks_loop ls 0 [] = findMarkdownBlocks_loop ls (i + 1) blocks
      \<and> (\<forall>b \<in> set blocks. endLine b < int (i + 1))" by fastforce
  then show ?case by blast
next
  case (fence i)
  then obtain blocks where b: "findMarkdownBlocks_loop ls 0 [] = findMarkdownBlocks_loop ls i blocks"
    "\<forall>b \<in> set blocks. endLine b < int i" by blast
  define j where "j = findClosingFence ls (i + 1)"
  have ge: "i + 1 \<le> j" unfolding j_def by (rule findClosingFence_ge)
  from fence(2,3) have step: "findMarkdownBlocks_loop ls i blocks =
      findMarkdownBlocks_loop ls (j + 1) (blocks @ fencedBlocks ls i)"
    by (simp add: mdLoop_unfold [of ls i] j_def)
  have "\<forall>b \<in> set (blocks @ fencedBlocks ls i). endLine b < int (j + 1)"
  proof
    fix b assume "b \<in> set (blocks @ fencedBlocks ls i)"
    then consider "b \<in> set blocks" | "b \<in> set (fencedBlocks ls i)" by auto
    then show "endLine b < int (j + 1)"
    proof cases
      case 1
      with b(2) ge show ?thesis by fastforce
    next
      case 2
      from fencedBlocks_bounds [OF fence(2) 2] show ?thesis by (simp add: j_def)
    qed
  qed
  with b(1) step have "findMarkdownBlocks_loop ls 0 [] =
      findMarkdownBlocks_loop ls (j + 1) (blocks @ fencedBlocks ls i)
      \<and> (\<forall>b \<in> set (blocks @ fencedBlocks ls i). endLine b < int (j + 1))" by simp
  then show ?case unfolding j_def by blast
qed

text \<open>
  A line that starts with three backticks and a tag is not an opening fence when it
  closes the fence before it: with an opening fence in line 0, the scan never stands at
  line 1.
\<close>

lemma scanStandsAt_not_inside_fence:
  assumes "0 < length ls" and "opensFence (lineText (ls ! 0))"
  shows "\<not> scanStandsAt ls 1"
proof -
  have "scanStandsAt ls k \<Longrightarrow> k \<noteq> 1" for k
  proof (induction rule: scanStandsAt.induct)
    case start
    show ?case by simp
  next
    case (skip i)
    with assms(2) show ?case by (cases "i = 0") auto
  next
    case (fence i)
    have "i + 1 \<le> findClosingFence ls (i + 1)" by (rule findClosingFence_ge)
    then show ?case by simp
  qed
  then show ?thesis by blast
qed

text \<open>
  Claim C1, as the code has it. Let line \<open>i\<close> be an opening fence: the scan of
  \<open>findMarkdownBlocks\<close> stands at it and it passes the test of line 95. When no later line
  starts with three backticks, the end of the document closes the fence: the result is
  the blocks found before line \<open>i\<close>, followed by one block for the fence, from line
  \<open>i + 1\<close> to the last line with \<open>lensLine = i\<close>, when a line follows the fence and its
  language is a string with a property of \<open>RUNNERS\<close>; nothing is added for the fence
  otherwise.
\<close>

theorem unterminated_fence_closed_by_end_of_document:
  assumes "scanStandsAt (documentLines document) i"
    and "i < lineCount document"
    and "opensFence (lineText (documentLines document ! i))"
    and "\<forall>k. i < k \<and> k < lineCount document \<longrightarrow>
           \<not> startsWith (lineText (documentLines document ! k)) fence"
  shows "\<exists>earlier.
     findMarkdownBlocks document =
       earlier @
         (case normalizeLangId
                 (toLowerCase_word
                    (takeWhile isWordChar (drop 3 (lineText (documentLines document ! i))))) of
            StringValue lang \<Rightarrow>
              if i + 1 < lineCount document \<and> getProperty RUNNERS lang \<noteq> Undefined
              then [\<lparr>startLine = int i + 1,
                     endLine = int (lineCount document) - 1,
                     languageId = lang,
                     code = join newline
                              (linesBetween (documentLines document) (int i + 1)
                                 (int (lineCount document) - 1)),
                     lensLine = int i\<rparr>]
              else []
          | MemberValue member \<Rightarrow> [])
     \<and> (\<forall>b \<in> set earlier. endLine b < int i)"
proof -
  define ls where "ls = documentLines document"
  note a = assms [unfolded lineCount_def, folded ls_def]
  from scanStandsAt_loop [OF a(1)] obtain earlier
    where e: "findMarkdownBlocks_loop ls 0 [] = findMarkdownBlocks_loop ls i earlier"
      "\<forall>b \<in> set earlier. endLine b < int i" by blast
  from a(2,4) have closing: "findClosingFence ls (i + 1) = length ls"
    by (intro findClosingFence_unterminated) auto
  have "findMarkdownBlocks_loop ls i earlier =
      findMarkdownBlocks_loop ls (length ls + 1) (earlier @ fencedBlocks ls i)"
    using a(2,3) closing by (simp add: mdLoop_unfold [of ls i])
  also have "\<dots> = earlier @ fencedBlocks ls i"
    by (subst mdLoop_unfold) simp
  finally have "findMarkdownBlocks document = earlier @ fencedBlocks ls i"
    using e(1) by (simp add: findMarkdownBlocks_def ls_def)
  moreover have "fencedBlocks ls i =
      (case normalizeLangId (toLowerCase_word (takeWhile isWordChar (drop 3 (lineText (ls ! i))))) of
         StringValue lang \<Rightarrow>
           if i + 1 < length ls \<and> getProperty RUNNERS lang \<noteq> Undefined
           then [\<lparr>startLine = int i + 1,
                  endLine = int (length ls) - 1,
                  languageId = lang,
                  code = join newline (linesBetween ls (int i + 1) (int (length ls) - 1)),
                  lensLine = int i\<rparr>]
           else []
       | MemberValue member \<Rightarrow> [])"
    using closing a(2) fenceLanguage_opening [OF a(3)]
    by (auto simp: fencedBlocks_def split: langValue.splits)
  ultimately show ?thesis using e(2) unfolding lineCount_def ls_def by metis
qed

theorem unterminated_fence_closed_by_end_of_document_witness:
  "scanStandsAt (documentLines secondFenceOpen) 3
   \<and> 3 < lineCount secondFenceOpen
   \<and> opensFence (lineText (documentLines secondFenceOpen ! 3))
   \<and> \<not> startsWith (lineText (documentLines secondFenceOpen ! 4)) fence
   \<and> last (findMarkdownBlocks secondFenceOpen) =
       \<lparr>startLine = 4, endLine = 4, languageId = ''javascript'', code = ''b'', lensLine = 3\<rparr>
   \<and> length (findMarkdownBlocks secondFenceOpen) = 2"
proof -
  let ?ls = "documentLines secondFenceOpen"
  have len: "lineCount secondFenceOpen = 5" by (simp add: lineCount_def secondFenceOpen_def)
  have h2: "3 < lineCount secondFenceOpen" by (simp add: len)
  have open0: "opensFence (lineText (?ls ! 0))" and len0: "0 < length ?ls" by code_simp+
  have close0: "findClosingFence ?ls (0 + 1) + 1 = 3" by code_simp
  from scanStandsAt.fence [OF scanStandsAt.start len0 open0]
  have h1: "scanStandsAt ?ls 3" unfolding close0 .
  have h3: "opensFence (lineText (?ls ! 3))" by code_simp
  have line4: "\<not> startsWith (lineText (?ls ! 4)) fence" by code_simp
  have h4: "\<forall>k. 3 < k \<and> k < lineCount secondFenceOpen \<longrightarrow>
      \<not> startsWith (lineText (?ls ! k)) fence"
  proof (intro allI impI)
    fix k :: nat
    assume "3 < k \<and> k < lineCount secondFenceOpen"
    then have "k = 4" by (simp add: len)
    with line4 show "\<not> startsWith (lineText (?ls ! k)) fence" by simp
  qed
  have rhs: "(case normalizeLangId
                 (toLowerCase_word (takeWhile isWordChar (drop 3 (lineText (?ls ! 3))))) of
            StringValue lang \<Rightarrow>
              if 3 + 1 < lineCount secondFenceOpen \<and> getProperty RUNNERS lang \<noteq> Undefined
              then [\<lparr>startLine = int 3 + 1,
                     endLine = int (lineCount secondFenceOpen) - 1,
                     languageId = lang,
                     code = join newline
                              (linesBetween ?ls (int 3 + 1) (int (lineCount secondFenceOpen) - 1)),
                     lensLine = int 3\<rparr>]
              else []
          | MemberValue member \<Rightarrow> []) =
       [\<lparr>startLine = 4, endLine = 4, languageId = ''javascript'', code = ''b'', lensLine = 3\<rparr>]"
    by code_simp
  from unterminated_fence_closed_by_end_of_document [OF h1 h2 h3 h4]
  obtain earlier where "findMarkdownBlocks secondFenceOpen =
      earlier @ [\<lparr>startLine = 4, endLine = 4, languageId = ''javascript'', code = ''b'',
        lensLine = 3\<rparr>]"
    unfolding rhs by blast
  then have l: "last (findMarkdownBlocks secondFenceOpen) =
       \<lparr>startLine = 4, endLine = 4, languageId = ''javascript'', code = ''b'', lensLine = 3\<rparr>"
    by simp
  have n: "length (findMarkdownBlocks secondFenceOpen) = 2" by code_simp
  from h1 h2 h3 line4 l n show ?thesis by blast
qed

text \<open>
  The statement of C1 as written, that an unterminated fence yields no block, fails for
  the document of the three lines \<open>intro\<close>, \<open>```python\<close> and \<open>print(1)\<close>.
\<close>

theorem unterminated_fence_emits_block:
  "documentLanguageId unterminatedFence = ''markdown''
   \<and> opensFence (lineText (documentLines unterminatedFence ! 1))
   \<and> \<not> startsWith (lineText (documentLines unterminatedFence ! 2)) fence
   \<and> length (documentLines unterminatedFence) = 3
   \<and> findCodeBlocks unterminatedFence =
       [\<lparr>startLine = 2, endLine = 2, languageId = ''python'', code = ''print(1)'',
         lensLine = 1\<rparr>]"
  by code_simp

text \<open>
  Claim C2, as the code has it. A line of three backticks with no word character after
  them does not pass the test of line 95, so it opens no fence; whenever the test
  passes, \<open>detectMarkdownLang\<close> finds a tag and the \<open>shellscript\<close> default is not taken;
  and a document none of whose lines passes the test yields no block. The witness is the
  document \<open>```\<close>, \<open>echo hi\<close>, \<open>```\<close>.
\<close>

theorem no_tagged_fence_no_blocks:
  "\<not> opensFence fence
   \<and> (opensFence line \<longrightarrow> detectMarkdownLang line \<noteq> None)
   \<and> ((\<forall>l \<in> set (documentLines document). \<not> opensFence (lineText l)) \<longrightarrow>
        findMarkdownBlocks document = [])"
proof (intro conjI impI)
  show "\<not> opensFence fence" by (simp add: opensFence_def fence_def)
next
  assume "opensFence line"
  then show "detectMarkdownLang line \<noteq> None" by (simp add: detectMarkdownLang_def)
next
  assume "\<forall>l \<in> set (documentLines document). \<not> opensFence (lineText l)"
  then show "findMarkdownBlocks document = []"
    using scanFrom_no_fence [of "documentLines document" 0]
    by (simp add: findMarkdownBlocks_def scanFrom_def)
qed

theorem no_tagged_fence_no_blocks_witness:
  "\<not> opensFence fence \<and> \<not> opensFence ''echo hi''
   \<and> findMarkdownBlocks \<lparr>documentLanguageId = ''markdown'',
        documentLines = [contentLine fence, contentLine ''echo hi'', contentLine fence]\<rparr> = []"
proof -
  have a: "\<not> opensFence fence" and b: "\<not> opensFence ''echo hi''" by code_simp+
  then have "\<forall>l \<in> set (documentLines \<lparr>documentLanguageId = ''markdown'',
        documentLines = [contentLine fence, contentLine ''echo hi'', contentLine fence]\<rparr>).
      \<not> opensFence (lineText l)"
    by (simp add: contentLine_def)
  with no_tagged_fence_no_blocks [of "''echo hi''" "\<lparr>documentLanguageId = ''markdown'',
        documentLines = [contentLine fence, contentLine ''echo hi'', contentLine fence]\<rparr>"]
  have "findMarkdownBlocks \<lparr>documentLanguageId = ''markdown'',
        documentLines = [contentLine fence, contentLine ''echo hi'', contentLine fence]\<rparr> = []"
    by blast
  with a b show ?thesis by blast
qed

text \<open>
  The statement of C2 as written, that this document yields one \<open>shellscript\<close> block,
  fails: the result is empty although \<open>shellscript\<close> is a key of \<open>RUNNERS\<close>.
\<close>

theorem untagged_fence_emits_nothing:
  "RUNNERS ''shellscript'' \<noteq> None
   \<and> findMarkdownBlocks \<lparr>documentLanguageId = ''markdown'',
        documentLines = [contentLine fence, contentLine ''echo hi'', contentLine fence]\<rparr> = []"
  by code_simp

text \<open>
  Claim C9. The blocks of a markdown document are ordered and disjoint: every block
  ends before the \<open>lensLine\<close> of every later block, in particular of the next one;
  \<open>startLine\<close> increases strictly; and no line number lies in the span from \<open>lensLine\<close>
  to \<open>endLine\<close> of two different blocks.
\<close>

theorem markdown_blocks_disjoint_and_ordered:
  "sorted_wrt (\<lambda>b1 b2. endLine b1 < lensLine b2) (findMarkdownBlocks document)
   \<and> sorted_wrt (\<lambda>b1 b2. startLine b1 < startLine b2) (findMarkdownBlocks document)
   \<and> (\<forall>n. n + 1 < length (findMarkdownBlocks document) \<longrightarrow>
         endLine (findMarkdownBlocks document ! n)
           < lensLine (findMarkdownBlocks document ! (n + 1)))
   \<and> (\<forall>m n k. m < length (findMarkdownBlocks document)
         \<and> n < length (findMarkdownBlocks document) \<and> m \<noteq> n
         \<and> lensLine (findMarkdownBlocks document ! m) \<le> k
         \<and> k \<le> endLine (findMarkdownBlocks document ! m) \<longrightarrow>
         \<not> (lensLine (findMarkdownBlocks document ! n) \<le> k
            \<and> k \<le> endLine (findMarkdownBlocks document ! n)))"
proof -
  define bs where "bs = findMarkdownBlocks document"
  have sorted: "sorted_wrt (\<lambda>b1 b2. endLine b1 < lensLine b2) bs"
    unfolding bs_def findMarkdownBlocks_scanFrom by (rule scanFrom_sorted)
  have bounds: "\<forall>b \<in> set bs. lensLine b < startLine b \<and> startLine b \<le> endLine b"
    unfolding bs_def findMarkdownBlocks_scanFrom
    using scanFrom_bounds [of "documentLines document" 0] by blast
  have pair: "endLine (bs ! m) < lensLine (bs ! n)" if "m < n" "n < length bs" for m n
    using sorted that by (simp add: sorted_wrt_iff_nth_less)
  have starts: "sorted_wrt (\<lambda>b1 b2. startLine b1 < startLine b2) bs"
    unfolding sorted_wrt_iff_nth_less
  proof (intro allI impI)
    fix m n assume mn: "m < n" "n < length bs"
    then have "bs ! m \<in> set bs" "bs ! n \<in> set bs" by simp_all
    with bounds have "startLine (bs ! m) \<le> endLine (bs ! m)"
      "lensLine (bs ! n) < startLine (bs ! n)" by blast+
    with pair [OF mn] show "startLine (bs ! m) < startLine (bs ! n)" by simp
  qed
  have consecutive: "\<forall>n. n + 1 < length bs \<longrightarrow> endLine (bs ! n) < lensLine (bs ! (n + 1))"
    using pair by simp
  have disjoint: "\<forall>m n k. m < length bs \<and> n < length bs \<and> m \<noteq> n
         \<and> lensLine (bs ! m) \<le> k \<and> k \<le> endLine (bs ! m) \<longrightarrow>
         \<not> (lensLine (bs ! n) \<le> k \<and> k \<le> endLine (bs ! n))"
  proof (intro allI impI)
    fix m n k
    assume a: "m < length bs \<and> n < length bs \<and> m \<noteq> n
         \<and> lensLine (bs ! m) \<le> k \<and> k \<le> endLine (bs ! m)"
    then consider "m < n" | "n < m" by linarith
    then show "\<not> (lensLine (bs ! n) \<le> k \<and> k \<le> endLine (bs ! n))"
    proof cases
      case 1
      with a pair [of m n] show ?thesis by simp
    next
      case 2
      with a pair [of n m] show ?thesis by simp
    qed
  qed
  from sorted starts consecutive disjoint show ?thesis unfolding bs_def by blast
qed

theorem markdown_blocks_disjoint_and_ordered_witness:
  "findMarkdownBlocks twoFences =
     [\<lparr>startLine = 1, endLine = 1, languageId = ''python'', code = ''print(1)'', lensLine = 0\<rparr>,
      \<lparr>startLine = 5, endLine = 5, languageId = ''shellscript'', code = ''echo hi'',
        lensLine = 4\<rparr>]
   \<and> (0::nat) + 1 < length (findMarkdownBlocks twoFences)
   \<and> endLine (findMarkdownBlocks twoFences ! 0) < lensLine (findMarkdownBlocks twoFences ! (0 + 1))"
proof -
  have v: "findMarkdownBlocks twoFences =
     [\<lparr>startLine = 1, endLine = 1, languageId = ''python'', code = ''print(1)'', lensLine = 0\<rparr>,
      \<lparr>startLine = 5, endLine = 5, languageId = ''shellscript'', code = ''echo hi'',
        lensLine = 4\<rparr>]"
    by code_simp
  then have len: "(0::nat) + 1 < length (findMarkdownBlocks twoFences)" by simp
  from markdown_blocks_disjoint_and_ordered [of twoFences] len
  have "endLine (findMarkdownBlocks twoFences ! 0) < lensLine (findMarkdownBlocks twoFences ! (0 + 1))"
    by blast
  with v len show ?thesis by blast
qed

subsection \<open>Source documents: the language guard and the whole-file block\<close>

lemma findSourceBlocks_guard:
  "getProperty RUNNERS (documentLanguageId document) = Undefined \<Longrightarrow>
     findSourceBlocks document = []"
  by (simp add: findSourceBlocks_def)

text \<open>
  The guard of line 122 returns the empty list for a language identifier that is neither
  a key of \<open>RUNNERS\<close> nor a name on \<open>Object.prototype\<close>.
\<close>

lemma language_without_property_no_blocks:
  assumes "documentLanguageId document \<noteq> ''markdown''"
    and "RUNNERS (documentLanguageId document) = None"
    and "documentLanguageId document \<notin> set objectPrototypeNames"
  shows "findCodeBlocks document = [] \<and> findSourceBlocks document = []"
  using assms by (simp add: findCodeBlocks_def findSourceBlocks_def getProperty_undefined)

text \<open>
  Claim C8 at the language identifier \<open>constructor\<close>. It is not a key of \<open>RUNNERS\<close>, but
  the read \<open>RUNNERS[languageId]\<close> of line 122 finds the member that every object
  inherits, which is truthy: the guard does not return, and the whole-file block is
  emitted.
\<close>

theorem inherited_name_passes_language_guard:
  "RUNNERS ''constructor'' = None
   \<and> getProperty RUNNERS ''constructor'' = Inherited ''constructor''
   \<and> findCodeBlocks
        \<lparr>documentLanguageId = ''constructor'', documentLines = [contentLine ''a'']\<rparr> =
       [\<lparr>startLine = 0, endLine = 0, languageId = ''constructor'', code = ''a'',
         lensLine = 0\<rparr>]"
  by code_simp

lemma map_nth_lineText: "map (\<lambda>i. lineText (ls ! i)) [0..<length ls] = map lineText ls"
  by (rule nth_equalityI) simp_all

text \<open>
  Claim C6. For a source document whose language identifier is a key of \<open>RUNNERS\<close> the
  result is not empty and starts with the whole-file block: \<open>startLine = 0\<close>,
  \<open>endLine = lineCount - 1\<close>, \<open>lensLine = 0\<close> and the code is all lines joined with a
  newline. The witness is the document of one empty line.
\<close>

theorem whole_file_block_first:
  assumes "RUNNERS (documentLanguageId document) \<noteq> None"
  shows "findCodeBlocks document = findSourceBlocks document
    \<and> findSourceBlocks document \<noteq> []
    \<and> hd (findSourceBlocks document) =
        \<lparr>startLine = 0,
         endLine = int (lineCount document) - 1,
         languageId = documentLanguageId document,
         code = join newline (map lineText (documentLines document)),
         lensLine = 0\<rparr>"
proof -
  from assms have "documentLanguageId document \<noteq> ''markdown''"
    using RUNNERS_markdown by auto
  then have "findCodeBlocks document = findSourceBlocks document"
    by (simp add: findCodeBlocks_def)
  moreover from assms have "findSourceBlocks document \<noteq> []"
    by (simp add: findSourceBlocks_def Let_def getProperty_own)
  moreover from assms have "hd (findSourceBlocks document) = wholeFileBlock document"
    by (auto simp: findSourceBlocks_def Let_def getProperty_own)
  ultimately show ?thesis
    by (simp add: wholeFileBlock_def lineCount_def map_nth_lineText)
qed

theorem whole_file_block_first_witness:
  "RUNNERS ''python'' \<noteq> None
   \<and> findSourceBlocks \<lparr>documentLanguageId = ''python'', documentLines = [blankLine]\<rparr> \<noteq> []
   \<and> hd (findSourceBlocks \<lparr>documentLanguageId = ''python'', documentLines = [blankLine]\<rparr>) =
        \<lparr>startLine = 0, endLine = 0, languageId = ''python'', code = [], lensLine = 0\<rparr>"
  using whole_file_block_first
    [of "\<lparr>documentLanguageId = ''python'', documentLines = [blankLine]\<rparr>"] RUNNERS_python
  by (simp add: lineCount_def blankLine_def)

lemma findSourceBlocks_guard_passed:
  assumes "getProperty RUNNERS (documentLanguageId document) \<noteq> Undefined"
  shows "findSourceBlocks document =
     wholeFileBlock document #
       (if 1 < length (findSections (documentLines document))
        then map (sectionBlock document) (findSections (documentLines document)) else [])"
  using assms by (auto simp: findSourceBlocks_def Let_def)

lemma findSourceBlocks_supported:
  assumes "RUNNERS (documentLanguageId document) \<noteq> None"
  shows "findSourceBlocks document =
     wholeFileBlock document #
       (if 1 < length (findSections (documentLines document))
        then map (sectionBlock document) (findSections (documentLines document)) else [])"
  using assms by (intro findSourceBlocks_guard_passed getProperty_own)

subsection \<open>The section loop\<close>

lemma countBlankRun_run:
  "countBlankRun ls blankCount j = (blankCount', j') \<Longrightarrow>
     (\<forall>k. j \<le> k \<and> k < j' \<longrightarrow> k < length ls \<and> isEmptyOrWhitespace (ls ! k))
     \<and> (j' < length ls \<longrightarrow> \<not> isEmptyOrWhitespace (ls ! j'))"
proof (induction ls blankCount j rule: countBlankRun.induct)
  case (1 ls blankCount j)
  show ?case
  proof (cases "j < length ls \<and> isEmptyOrWhitespace (ls ! j)")
    case True
    with "1.prems" have "countBlankRun ls (blankCount + 1) (j + 1) = (blankCount', j')"
      by (subst (asm) countBlankRun.simps) simp
    with "1.IH" True have
      "(\<forall>k. j + 1 \<le> k \<and> k < j' \<longrightarrow> k < length ls \<and> isEmptyOrWhitespace (ls ! k))
       \<and> (j' < length ls \<longrightarrow> \<not> isEmptyOrWhitespace (ls ! j'))"
      by blast
    with True show ?thesis
      by (metis Suc_eq_plus1 Suc_leI le_neq_implies_less)
  next
    case False
    with "1.prems" show ?thesis by (subst (asm) countBlankRun.simps) auto
  qed
qed

lemma blank_run_facts:
  assumes "i < length ls" and "isEmptyOrWhitespace (ls ! i)"
    and "countBlankRun ls 0 i = (blankCount, j)"
  shows "j = i + blankCount" and "1 \<le> blankCount" and "j \<le> length ls"
    and "\<forall>k. i \<le> k \<and> k < j \<longrightarrow> isEmptyOrWhitespace (ls ! k)"
    and "j < length ls \<longrightarrow> \<not> isEmptyOrWhitespace (ls ! j)"
proof -
  from countBlankRun_advance [OF assms(3)] show j: "j = i + blankCount" by simp
  from countBlankRun_run [OF assms(3)]
  have run: "\<forall>k. i \<le> k \<and> k < j \<longrightarrow> k < length ls \<and> isEmptyOrWhitespace (ls ! k)"
    and stop: "j < length ls \<longrightarrow> \<not> isEmptyOrWhitespace (ls ! j)" by blast+
  from run show "\<forall>k. i \<le> k \<and> k < j \<longrightarrow> isEmptyOrWhitespace (ls ! k)" by blast
  from stop show "j < length ls \<longrightarrow> \<not> isEmptyOrWhitespace (ls ! j)" .
  from stop assms(1,2) j show "1 \<le> blankCount" by (cases blankCount) auto
  then have "i \<le> j - 1 \<and> j - 1 < j" using j by simp
  with run have "j - 1 < length ls" by blast
  then show "j \<le> length ls" by simp
qed

lemma secLoop_finished:
  "\<not> i < length ls \<Longrightarrow> findSections_loop ls i sectionStart sections = (sectionStart, sections)"
  by (subst findSections_loop.simps) simp

lemma secLoop_content:
  "i < length ls \<Longrightarrow> \<not> isEmptyOrWhitespace (ls ! i) \<Longrightarrow>
     findSections_loop ls i sectionStart sections =
       findSections_loop ls (i + 1)
         (case sectionStart of None \<Rightarrow> Some i | Some s \<Rightarrow> Some s) sections"
  by (subst findSections_loop.simps) simp

lemma secLoop_blank_closed:
  "i < length ls \<Longrightarrow> isEmptyOrWhitespace (ls ! i) \<Longrightarrow>
     findSections_loop ls i None sections = findSections_loop ls (i + 1) None sections"
  by (subst findSections_loop.simps) simp

lemma secLoop_blank_single:
  "i < length ls \<Longrightarrow> isEmptyOrWhitespace (ls ! i) \<Longrightarrow>
   countBlankRun ls 0 i = (blankCount, j) \<Longrightarrow> blankCount < 2 \<Longrightarrow>
     findSections_loop ls i (Some s) sections = findSections_loop ls (i + 1) (Some s) sections"
  by (subst findSections_loop.simps) simp

lemma secLoop_blank_break:
  "i < length ls \<Longrightarrow> isEmptyOrWhitespace (ls ! i) \<Longrightarrow>
   countBlankRun ls 0 i = (blankCount, j) \<Longrightarrow> 2 \<le> blankCount \<Longrightarrow>
     findSections_loop ls i (Some s) sections =
       findSections_loop ls j None (sections @ [\<lparr>start = int s, end' = int i - 1\<rparr>])"
proof -
  assume a: "i < length ls" "isEmptyOrWhitespace (ls ! i)"
    "countBlankRun ls 0 i = (blankCount, j)" "2 \<le> blankCount"
  from blank_run_facts(1) [OF a(1,2,3)] a(4) have "j - 1 + 1 = j" by simp
  with a show ?thesis by (subst findSections_loop.simps) simp
qed

lemma list_all_take_blank:
  "i \<le> length ls \<Longrightarrow>
   list_all isEmptyOrWhitespace (take i ls) = (\<forall>m<i. isEmptyOrWhitespace (ls ! m))"
  by (simp add: list_all_length)

lemma cursorInv_step_content:
  assumes "i < length ls" and "\<not> isEmptyOrWhitespace (ls ! i)" and "cursorInv ls i sectionStart"
  shows "cursorInv ls (i + 1) (case sectionStart of None \<Rightarrow> Some i | Some s \<Rightarrow> Some s)"
  using assms by (auto simp: cursorInv_def split: option.splits)

lemma cursorInv_step_blank_closed:
  assumes "i < length ls" and "isEmptyOrWhitespace (ls ! i)" and "cursorInv ls i None"
  shows "cursorInv ls (i + 1) None"
proof -
  from assms(3) consider (all) "list_all isEmptyOrWhitespace (take i ls)"
    | (gap) "2 \<le> i" "isEmptyOrWhitespace (ls ! (i - 1))"
    by (auto simp: cursorInv_def)
  then show ?thesis
  proof cases
    case all
    with assms(1,2) have "list_all isEmptyOrWhitespace (take (i + 1) ls)"
      by (simp add: list_all_take_blank less_Suc_eq)
    then show ?thesis by (simp add: cursorInv_def)
  next
    case gap
    with assms(2) show ?thesis by (simp add: cursorInv_def)
  qed
qed

lemma cursorInv_open_prev:
  assumes "i < length ls" and "isEmptyOrWhitespace (ls ! i)" and "cursorInv ls i (Some s)"
  shows "1 \<le> i" and "\<not> isEmptyOrWhitespace (ls ! (i - 1))"
  using assms by (auto simp: cursorInv_def)

lemma cursorInv_step_blank_single:
  assumes "i < length ls" and "isEmptyOrWhitespace (ls ! i)" and "cursorInv ls i (Some s)"
    and "i + 1 < length ls \<longrightarrow> \<not> isEmptyOrWhitespace (ls ! (i + 1))"
  shows "cursorInv ls (i + 1) (Some s)"
  using assms cursorInv_open_prev [OF assms(1,2,3)]
  by (auto simp: cursorInv_def)

lemma cursorInv_step_blank_break:
  assumes "i + 2 \<le> j" and "\<forall>k. i \<le> k \<and> k < j \<longrightarrow> isEmptyOrWhitespace (ls ! k)"
  shows "cursorInv ls j None"
proof -
  from assms(1) have "i \<le> j - 1 \<and> j - 1 < j" and "i \<le> j - 2 \<and> j - 2 < j" by simp_all
  with assms(2) have "isEmptyOrWhitespace (ls ! (j - 1))" "isEmptyOrWhitespace (ls ! (j - 2))"
    by blast+
  with assms(1) show ?thesis by (simp add: cursorInv_def)
qed

text \<open>
  Induction along the loop: one case for each way the loop body leaves the cursor, each
  with the state of the loop before the step.
\<close>

lemma findSections_loop_induct
  [consumes 2, case_names finished content blank_closed blank_single blank_break]:
  assumes "cursorInv ls i sectionStart" and "i \<le> length ls"
    and finished: "\<And>sectionStart sections.
        cursorInv ls (length ls) sectionStart \<Longrightarrow> P (length ls) sectionStart sections"
    and content: "\<And>i sectionStart sections.
        i < length ls \<Longrightarrow> \<not> isEmptyOrWhitespace (ls ! i) \<Longrightarrow> cursorInv ls i sectionStart \<Longrightarrow>
        P (i + 1) (case sectionStart of None \<Rightarrow> Some i | Some s \<Rightarrow> Some s) sections \<Longrightarrow>
        P i sectionStart sections"
    and blank_closed: "\<And>i sections.
        i < length ls \<Longrightarrow> isEmptyOrWhitespace (ls ! i) \<Longrightarrow> cursorInv ls i None \<Longrightarrow>
        P (i + 1) None sections \<Longrightarrow> P i None sections"
    and blank_single: "\<And>i s sections blankCount j.
        i < length ls \<Longrightarrow> isEmptyOrWhitespace (ls ! i) \<Longrightarrow> cursorInv ls i (Some s) \<Longrightarrow>
        countBlankRun ls 0 i = (blankCount, j) \<Longrightarrow> blankCount < 2 \<Longrightarrow>
        P (i + 1) (Some s) sections \<Longrightarrow> P i (Some s) sections"
    and blank_break: "\<And>i s sections blankCount j.
        i < length ls \<Longrightarrow> isEmptyOrWhitespace (ls ! i) \<Longrightarrow> cursorInv ls i (Some s) \<Longrightarrow>
        countBlankRun ls 0 i = (blankCount, j) \<Longrightarrow> 2 \<le> blankCount \<Longrightarrow>
        P j None (sections @ [\<lparr>start = int s, end' = int i - 1\<rparr>]) \<Longrightarrow>
        P i (Some s) sections"
  shows "P i sectionStart acc"
proof -
  have "cursorInv ls i sectionStart \<Longrightarrow> i \<le> length ls \<Longrightarrow> P i sectionStart acc"
    for i sectionStart acc
  proof (induction "length ls - i" arbitrary: i sectionStart acc rule: less_induct)
  case (less i sectionStart acc)
  show ?case
  proof (cases "i < length ls")
    case False
    with less.prems have "i = length ls" by simp
    with less.prems show ?thesis by (simp add: finished)
  next
    case True
    then have dec: "length ls - (i + 1) < length ls - i" and le: "i + 1 \<le> length ls"
      by simp_all
    show ?thesis
    proof (cases "isEmptyOrWhitespace (ls ! i)")
      case False
      from cursorInv_step_content [OF True False less.prems(1)]
      have "P (i + 1) (case sectionStart of None \<Rightarrow> Some i | Some s \<Rightarrow> Some s) acc"
        by (rule less.hyps [OF dec _ le])
      with True False less.prems(1) show ?thesis by (rule content)
    next
      case blank: True
      show ?thesis
      proof (cases sectionStart)
        case None
        with less.prems have inv: "cursorInv ls i None" by simp
        from cursorInv_step_blank_closed [OF True blank inv]
        have "P (i + 1) None acc" by (rule less.hyps [OF dec _ le])
        with True blank inv show ?thesis unfolding None by (rule blank_closed)
      next
        case (Some s)
        with less.prems have inv: "cursorInv ls i (Some s)" by simp
        obtain blankCount j where run: "countBlankRun ls 0 i = (blankCount, j)"
          by (cases "countBlankRun ls 0 i")
        note facts = blank_run_facts [OF True blank run]
        show ?thesis
        proof (cases "blankCount < 2")
          case True
          with facts(1,2) have "j = i + 1" by simp
          with facts(5) have "i + 1 < length ls \<longrightarrow> \<not> isEmptyOrWhitespace (ls ! (i + 1))"
            by simp
          from cursorInv_step_blank_single [OF \<open>i < length ls\<close> blank inv this]
          have "P (i + 1) (Some s) acc" by (rule less.hyps [OF dec _ le])
          with \<open>i < length ls\<close> blank inv run True show ?thesis
            unfolding Some by (rule blank_single)
        next
          case False
          then have two: "2 \<le> blankCount" by simp
          with facts(1) have far: "i + 2 \<le> j" by simp
          with \<open>i < length ls\<close> facts(3) have "length ls - j < length ls - i" by simp
          moreover from cursorInv_step_blank_break [OF far facts(4)]
          have "cursorInv ls j None" .
          ultimately have "P j None (acc @ [\<lparr>start = int s, end' = int i - 1\<rparr>])"
            using facts(3) by (rule less.hyps)
          with \<open>i < length ls\<close> blank inv run two show ?thesis
            unfolding Some by (rule blank_break)
        qed
      qed
    qed
  qed
qed
  from this [OF assms(1,2)] show ?thesis .
qed

lemma findSections_closeOpenSection:
  "findSections ls = closeOpenSection ls (findSections_loop ls 0 None [])"
  by (simp add: findSections_def closeOpenSection_def)

lemma cursorInv_initial: "cursorInv ls 0 None"
  by (simp add: cursorInv_def)

lemma sections_ok_from:
  assumes "cursorInv ls i sectionStart" and "i \<le> length ls"
  shows "(\<forall>sec \<in> set acc. sectionOk ls sec) \<longrightarrow>
     (\<forall>sec \<in> set (closeOpenSection ls (findSections_loop ls i sectionStart acc)).
        sectionOk ls sec)"
  using assms
proof (induction i sectionStart acc rule: findSections_loop_induct)
  case (finished sectionStart acc)
  show ?case
  proof (cases sectionStart)
    case None
    then show ?thesis by (simp add: secLoop_finished closeOpenSection_def)
  next
    case (Some s)
    with finished have "s < length ls" "\<not> isEmptyOrWhitespace (ls ! s)"
      and "isEmptyOrWhitespace (ls ! (length ls - 1)) \<longrightarrow>
            2 \<le> length ls \<and> \<not> isEmptyOrWhitespace (ls ! (length ls - 2))"
      by (auto simp: cursorInv_def)
    moreover have "nat (int (length ls) - 1) = length ls - 1"
      and "nat (int (length ls) - 1 - 1) = length ls - 2" by simp_all
    ultimately have "sectionOk ls \<lparr>start = int s, end' = int (length ls) - 1\<rparr>"
      by (auto simp: sectionOk_def)
    with Some show ?thesis by (simp add: secLoop_finished closeOpenSection_def)
  qed
next
  case (content i sectionStart acc)
  then show ?case by (simp add: secLoop_content)
next
  case (blank_closed i acc)
  then show ?case by (simp add: secLoop_blank_closed)
next
  case (blank_single i s acc blankCount j)
  then show ?case by (simp add: secLoop_blank_single)
next
  case (blank_break i s acc blankCount j)
  from cursorInv_open_prev [OF blank_break(1,2,3)]
  have prev: "1 \<le> i" "\<not> isEmptyOrWhitespace (ls ! (i - 1))" .
  from blank_break(3) have s: "s < i" "\<not> isEmptyOrWhitespace (ls ! s)"
    by (auto simp: cursorInv_def)
  have "nat (int i - 1) = i - 1" by simp
  with prev s blank_break(1) have "sectionOk ls \<lparr>start = int s, end' = int i - 1\<rparr>"
    by (auto simp: sectionOk_def)
  with blank_break(6) show ?case
    by (simp add: secLoop_blank_break [OF blank_break(1,2,4,5)])
qed

lemma findSections_ok: "\<forall>sec \<in> set (findSections ls). sectionOk ls sec"
  using sections_ok_from [OF cursorInv_initial, of ls "[]"]
  by (simp add: findSections_closeOpenSection)

lemma spec_sectionStart_blank:
  "isEmptyOrWhitespace (ls ! k) \<Longrightarrow> \<not> spec_sectionStart ls k"
  by (simp add: spec_sectionStart_def)

lemma filter_starts_blank_run:
  "\<forall>k. i \<le> k \<and> k < j \<longrightarrow> isEmptyOrWhitespace (ls ! k) \<Longrightarrow>
     filter (spec_sectionStart ls) [i..<j] = []"
  by (auto simp: filter_empty_conv spec_sectionStart_blank)

lemma section_starts_from:
  assumes "cursorInv ls i sectionStart" and "i \<le> length ls"
  shows "map start (closeOpenSection ls (findSections_loop ls i sectionStart acc)) =
     map start acc @ (case sectionStart of Some s \<Rightarrow> [int s] | None \<Rightarrow> [])
       @ map int (filter (spec_sectionStart ls) [i..<length ls])"
  using assms
proof (induction i sectionStart acc rule: findSections_loop_induct)
  case (finished sectionStart acc)
  show ?case
    by (cases sectionStart) (simp_all add: secLoop_finished closeOpenSection_def)
next
  case (content i sectionStart acc)
  have upt: "[i..<length ls] = i # [i + 1..<length ls]"
    using content(1) by (simp add: upt_conv_Cons)
  show ?case
  proof (cases sectionStart)
    case None
    with content(2,3) have "spec_sectionStart ls i"
      by (simp add: cursorInv_def spec_sectionStart_def)
    with content(4) None show ?thesis
      by (simp add: secLoop_content [OF content(1,2)] upt)
  next
    case (Some s)
    with content(3) have s: "s < i" "\<not> isEmptyOrWhitespace (ls ! s)"
      and gap: "isEmptyOrWhitespace (ls ! (i - 1)) \<longrightarrow> \<not> isEmptyOrWhitespace (ls ! (i - 2))"
      by (auto simp: cursorInv_def)
    from s content(1) have "\<not> list_all isEmptyOrWhitespace (take i ls)"
      by (auto simp: list_all_take_blank)
    with gap have "\<not> spec_sectionStart ls i" by (auto simp: spec_sectionStart_def)
    with content(4) Some show ?thesis
      by (simp add: secLoop_content [OF content(1,2)] upt)
  qed
next
  case (blank_closed i acc)
  have upt: "[i..<length ls] = i # [i + 1..<length ls]"
    using blank_closed(1) by (simp add: upt_conv_Cons)
  from blank_closed(4) show ?case
    by (simp add: secLoop_blank_closed [OF blank_closed(1,2)] upt
        spec_sectionStart_blank [OF blank_closed(2)])
next
  case (blank_single i s acc blankCount j)
  have upt: "[i..<length ls] = i # [i + 1..<length ls]"
    using blank_single(1) by (simp add: upt_conv_Cons)
  from blank_single(6) show ?case
    by (simp add: secLoop_blank_single [OF blank_single(1,2,4,5)] upt
        spec_sectionStart_blank [OF blank_single(2)])
next
  case (blank_break i s acc blankCount j)
  note facts = blank_run_facts [OF blank_break(1,2,4)]
  from facts(1) have "i \<le> j" by simp
  with facts(3) have "[i..<length ls] = [i..<j] @ [j..<length ls]"
    using upt_add_eq_append [of i j "length ls - j"] by simp
  with filter_starts_blank_run [OF facts(4)]
  have "filter (spec_sectionStart ls) [i..<length ls] =
      filter (spec_sectionStart ls) [j..<length ls]" by simp
  with blank_break(6) show ?case
    by (simp add: secLoop_blank_break [OF blank_break(1,2,4,5)])
qed

lemma findSections_starts:
  "map start (findSections ls) = map int (filter (spec_sectionStart ls) [0..<length ls])"
  using section_starts_from [OF cursorInv_initial, of ls "[]"]
  by (simp add: findSections_closeOpenSection)

lemma length_findSections: "length (findSections ls) = spec_sectionCount ls"
proof -
  have "length (findSections ls) = length (map start (findSections ls))" by simp
  also have "\<dots> = spec_sectionCount ls"
    by (simp only: findSections_starts spec_sectionCount_def length_map)
  finally show ?thesis .
qed

lemma findSections_starts_increasing: "sorted_wrt (<) (map start (findSections ls))"
proof -
  have "sorted_wrt (<) (filter (spec_sectionStart ls) [0..<length ls])"
    by (rule sorted_wrt_filter) simp
  then show ?thesis by (simp add: findSections_starts sorted_wrt_map)
qed

lemma map_startLine_sectionBlock:
  "map (startLine \<circ> sectionBlock document) secs = map start secs"
  by (simp add: sectionBlock_def)

subsection \<open>Section blocks\<close>

text \<open>
  Claim C3, as the code has it. Every section block of a source document with a
  supported language starts on a line that is not blank. Its last line is not blank
  either, except that the last section runs to the last line of the document when that
  line is a single blank line after a line that is not blank. So a blank line inside a
  section block never lies before the first non-blank line of the document, and it lies
  after the last non-blank line only when it is that single last line.
\<close>

theorem section_block_edges:
  assumes "RUNNERS (documentLanguageId document) \<noteq> None"
  shows "\<forall>b \<in> set (tl (findSourceBlocks document)).
     0 \<le> startLine b \<and> startLine b \<le> endLine b
     \<and> \<not> isEmptyOrWhitespace (documentLines document ! nat (startLine b))
     \<and> (isEmptyOrWhitespace (documentLines document ! nat (endLine b)) \<longrightarrow>
          endLine b = int (lineCount document) - 1 \<and> 0 < endLine b
          \<and> \<not> isEmptyOrWhitespace (documentLines document ! nat (endLine b - 1)))
     \<and> (\<forall>k. startLine b \<le> int k \<and> int k \<le> endLine b
             \<and> isEmptyOrWhitespace (documentLines document ! k) \<longrightarrow>
           (\<exists>m<k. \<not> isEmptyOrWhitespace (documentLines document ! m))
           \<and> ((\<exists>m. k < m \<and> m < lineCount document
                  \<and> \<not> isEmptyOrWhitespace (documentLines document ! m))
              \<or> (int k = endLine b \<and> k + 1 = lineCount document)))"
proof
  fix b
  assume "b \<in> set (tl (findSourceBlocks document))"
  then obtain sec where sec: "sec \<in> set (findSections (documentLines document))"
    and b: "b = sectionBlock document sec"
    unfolding findSourceBlocks_supported [OF assms] by (auto split: if_splits)
  define ls where "ls = documentLines document"
  define s where "s = nat (start sec)"
  define e where "e = nat (end' sec)"
  from sec findSections_ok [of "documentLines document"] have "sectionOk ls sec"
    unfolding ls_def by blast
  then have ok: "0 \<le> start sec" "start sec \<le> end' sec" "end' sec \<le> int (length ls) - 1"
      "\<not> isEmptyOrWhitespace (ls ! nat (start sec))"
      "isEmptyOrWhitespace (ls ! nat (end' sec)) \<longrightarrow>
         end' sec = int (length ls) - 1 \<and> 0 < end' sec
         \<and> \<not> isEmptyOrWhitespace (ls ! nat (end' sec - 1))"
    by (simp_all add: sectionOk_def)
  from ok(1,2,3) have se: "start sec = int s" "end' sec = int e" "s \<le> e" "e < length ls"
    by (simp_all add: s_def e_def)
  from ok(4) have first: "\<not> isEmptyOrWhitespace (ls ! s)" by (simp add: s_def)
  have e1: "nat (int e - 1) = e - 1" by simp
  have last: "isEmptyOrWhitespace (ls ! e) \<longrightarrow>
        e + 1 = length ls \<and> 0 < e \<and> \<not> isEmptyOrWhitespace (ls ! (e - 1))"
  proof
    assume "isEmptyOrWhitespace (ls ! e)"
    then have "isEmptyOrWhitespace (ls ! nat (end' sec))" by (simp add: e_def)
    with ok(5) have "end' sec = int (length ls) - 1" "0 < end' sec"
      "\<not> isEmptyOrWhitespace (ls ! nat (end' sec - 1))" by blast+
    then have "int e = int (length ls) - 1" "0 < int e"
      "\<not> isEmptyOrWhitespace (ls ! (e - 1))"
      unfolding se(2) e1 by simp_all
    then show "e + 1 = length ls \<and> 0 < e \<and> \<not> isEmptyOrWhitespace (ls ! (e - 1))"
      by simp
  qed
  have inner: "(\<exists>m<k. \<not> isEmptyOrWhitespace (ls ! m))
      \<and> ((\<exists>m. k < m \<and> m < length ls \<and> \<not> isEmptyOrWhitespace (ls ! m))
         \<or> (k = e \<and> k + 1 = length ls))"
    if k: "s \<le> k" "k \<le> e" "isEmptyOrWhitespace (ls ! k)" for k
  proof
    from k first have "s < k" by (cases "s = k") auto
    with first show "\<exists>m<k. \<not> isEmptyOrWhitespace (ls ! m)" by blast
  next
    show "(\<exists>m. k < m \<and> m < length ls \<and> \<not> isEmptyOrWhitespace (ls ! m))
        \<or> (k = e \<and> k + 1 = length ls)"
    proof (cases "isEmptyOrWhitespace (ls ! e)")
      case False
      with k have "k < e" by (cases "k = e") auto
      with False se(4) show ?thesis by blast
    next
      case True
      with last have l: "e + 1 = length ls" "0 < e" "\<not> isEmptyOrWhitespace (ls ! (e - 1))"
        by simp_all
      show ?thesis
      proof (cases "k = e")
        case True
        with l show ?thesis by simp
      next
        case False
        with k have "k \<le> e - 1" by simp
        moreover from k l(3) have "k \<noteq> e - 1" by auto
        ultimately have "k < e - 1" by simp
        moreover from l have "e - 1 < length ls" by simp
        ultimately show ?thesis using l(3) by blast
      qed
    qed
  qed
  from se first last inner e1 show "0 \<le> startLine b \<and> startLine b \<le> endLine b
     \<and> \<not> isEmptyOrWhitespace (documentLines document ! nat (startLine b))
     \<and> (isEmptyOrWhitespace (documentLines document ! nat (endLine b)) \<longrightarrow>
          endLine b = int (lineCount document) - 1 \<and> 0 < endLine b
          \<and> \<not> isEmptyOrWhitespace (documentLines document ! nat (endLine b - 1)))
     \<and> (\<forall>k. startLine b \<le> int k \<and> int k \<le> endLine b
             \<and> isEmptyOrWhitespace (documentLines document ! k) \<longrightarrow>
           (\<exists>m<k. \<not> isEmptyOrWhitespace (documentLines document ! m))
           \<and> ((\<exists>m. k < m \<and> m < lineCount document
                  \<and> \<not> isEmptyOrWhitespace (documentLines document ! m))
              \<or> (int k = endLine b \<and> k + 1 = lineCount document)))"
    unfolding b sectionBlock_def lineCount_def ls_def [symmetric]
    by (auto simp: ls_def)
qed

theorem section_block_edges_witness:
  "RUNNERS (documentLanguageId trailingBlank) \<noteq> None
   \<and> findSourceBlocks trailingBlank ! 2 \<in> set (tl (findSourceBlocks trailingBlank))
   \<and> isEmptyOrWhitespace
        (documentLines trailingBlank ! nat (endLine (findSourceBlocks trailingBlank ! 2)))
   \<and> \<not> isEmptyOrWhitespace
        (documentLines trailingBlank ! nat (startLine (findSourceBlocks trailingBlank ! 2)))
   \<and> endLine (findSourceBlocks trailingBlank ! 2) = int (lineCount trailingBlank) - 1
   \<and> \<not> isEmptyOrWhitespace
        (documentLines trailingBlank ! nat (endLine (findSourceBlocks trailingBlank ! 2) - 1))"
proof -
  have h: "RUNNERS (documentLanguageId trailingBlank) \<noteq> None" by code_simp
  have mem: "findSourceBlocks trailingBlank ! 2 \<in> set (tl (findSourceBlocks trailingBlank))"
    by code_simp
  have blank: "isEmptyOrWhitespace
        (documentLines trailingBlank ! nat (endLine (findSourceBlocks trailingBlank ! 2)))"
    by code_simp
  from section_block_edges [OF h] mem blank h show ?thesis by blast
qed

text \<open>
  The statement of C3 as written, that \<open>endLine\<close> of a section block is never blank,
  fails for the lines \<open>a\<close>, two blank lines, \<open>b\<close>, one blank line: the second section
  block ends on the blank last line.
\<close>

theorem section_block_ends_on_blank_line:
  "RUNNERS (documentLanguageId trailingBlank) \<noteq> None
   \<and> findSourceBlocks trailingBlank ! 2 =
       \<lparr>startLine = 3, endLine = 4, languageId = ''python'',
        code = ''b'' @ newline, lensLine = 3\<rparr>
   \<and> findSourceBlocks trailingBlank ! 2 \<in> set (tl (findSourceBlocks trailingBlank))
   \<and> isEmptyOrWhitespace (documentLines trailingBlank ! 4)
   \<and> \<not> isEmptyOrWhitespace (documentLines trailingBlank ! 3)
   \<and> length (documentLines trailingBlank) = 5"
  by code_simp

text \<open>
  Claim C5. In a document with at least one line, markdown or source, every block has
  \<open>0 \<le> startLine \<le> endLine \<le> lineCount - 1\<close> and \<open>lensLine \<le> startLine\<close>.
\<close>

theorem block_line_bounds:
  assumes "documentLines document \<noteq> []"
  shows "\<forall>b \<in> set (findCodeBlocks document).
     0 \<le> startLine b \<and> startLine b \<le> endLine b
     \<and> endLine b \<le> int (lineCount document) - 1 \<and> lensLine b \<le> startLine b"
proof (cases "documentLanguageId document = ''markdown''")
  case True
  then have "findCodeBlocks document = scanFrom (documentLines document) 0"
    by (simp add: findCodeBlocks_def findMarkdownBlocks_scanFrom)
  with scanFrom_bounds [of "documentLines document" 0] show ?thesis
    by (auto simp: lineCount_def)
next
  case False
  then have plain: "findCodeBlocks document = findSourceBlocks document"
    by (simp add: findCodeBlocks_def)
  show ?thesis
  proof (cases "getProperty RUNNERS (documentLanguageId document) = Undefined")
    case True
    with plain show ?thesis by (simp add: findSourceBlocks_guard)
  next
    case False
    from assms have whole: "0 \<le> startLine (wholeFileBlock document)
        \<and> startLine (wholeFileBlock document) \<le> endLine (wholeFileBlock document)
        \<and> endLine (wholeFileBlock document) \<le> int (lineCount document) - 1
        \<and> lensLine (wholeFileBlock document) \<le> startLine (wholeFileBlock document)"
      by (cases "documentLines document") (simp_all add: wholeFileBlock_def lineCount_def)
    have secs: "0 \<le> startLine (sectionBlock document sec)
        \<and> startLine (sectionBlock document sec) \<le> endLine (sectionBlock document sec)
        \<and> endLine (sectionBlock document sec) \<le> int (lineCount document) - 1
        \<and> lensLine (sectionBlock document sec) \<le> startLine (sectionBlock document sec)"
      if "sec \<in> set (findSections (documentLines document))" for sec
      using findSections_ok [of "documentLines document"] that
      by (auto simp: sectionOk_def sectionBlock_def lineCount_def)
    from whole secs show ?thesis
      unfolding plain findSourceBlocks_guard_passed [OF False] by auto
  qed
qed

theorem block_line_bounds_witness:
  "documentLines twoFences \<noteq> []
   \<and> \<lparr>startLine = 5, endLine = 5, languageId = ''shellscript'', code = ''echo hi'',
        lensLine = 4\<rparr> \<in> set (findCodeBlocks twoFences)
   \<and> (0::int) \<le> 5 \<and> (5::int) \<le> int (lineCount twoFences) - 1 \<and> (4::int) \<le> 5"
proof -
  have ne: "documentLines twoFences \<noteq> []" by (simp add: twoFences_def)
  have mem: "\<lparr>startLine = 5, endLine = 5, languageId = ''shellscript'', code = ''echo hi'',
        lensLine = 4\<rparr> \<in> set (findCodeBlocks twoFences)" by code_simp
  from block_line_bounds [OF ne] mem
  have "(5::int) \<le> int (lineCount twoFences) - 1" by fastforce
  with ne mem show ?thesis by simp
qed

text \<open>
  Claim C7. For a source document with a supported language, section blocks are in the
  result exactly when the document has two or more sections in the specification's
  sense. The whole-file block comes first; the section blocks follow it in document
  order, one for each section, at the line where the section starts.
\<close>

theorem section_blocks_iff_two_sections:
  assumes "RUNNERS (documentLanguageId document) \<noteq> None"
  shows "(tl (findSourceBlocks document) \<noteq> [])
       = (2 \<le> spec_sectionCount (documentLines document))
   \<and> findSourceBlocks document = wholeFileBlock document # tl (findSourceBlocks document)
   \<and> map startLine (tl (findSourceBlocks document)) =
       (if 2 \<le> spec_sectionCount (documentLines document)
        then map int (filter (spec_sectionStart (documentLines document))
                        [0..<length (documentLines document)])
        else [])
   \<and> sorted_wrt (\<lambda>b1 b2. startLine b1 < startLine b2) (tl (findSourceBlocks document))"
proof -
  define ls where "ls = documentLines document"
  have tl_eq: "tl (findSourceBlocks document) =
      (if 2 \<le> spec_sectionCount ls then map (sectionBlock document) (findSections ls) else [])"
    unfolding findSourceBlocks_supported [OF assms] ls_def [symmetric]
    by (auto simp: length_findSections)
  have nonempty: "2 \<le> spec_sectionCount ls \<Longrightarrow> findSections ls \<noteq> []"
    using length_findSections [of ls] by auto
  have starts: "map startLine (tl (findSourceBlocks document)) =
      (if 2 \<le> spec_sectionCount ls
       then map int (filter (spec_sectionStart ls) [0..<length ls]) else [])"
    by (simp add: tl_eq map_startLine_sectionBlock findSections_starts)
  have "sorted_wrt (<) (map startLine (tl (findSourceBlocks document)))"
    using findSections_starts_increasing [of ls]
    by (simp add: tl_eq map_startLine_sectionBlock)
  then have sorted: "sorted_wrt (\<lambda>b1 b2. startLine b1 < startLine b2)
      (tl (findSourceBlocks document))"
    by (simp add: sorted_wrt_map)
  have first: "findSourceBlocks document = wholeFileBlock document # tl (findSourceBlocks document)"
    by (simp add: findSourceBlocks_supported [OF assms])
  from tl_eq nonempty have iff: "(tl (findSourceBlocks document) \<noteq> []) = (2 \<le> spec_sectionCount ls)"
    by simp
  from iff first starts sorted show ?thesis unfolding ls_def by blast
qed

theorem section_blocks_iff_two_sections_witness:
  "RUNNERS (documentLanguageId doubleBlank) \<noteq> None
   \<and> spec_sectionCount (documentLines doubleBlank) = 2
   \<and> tl (findSourceBlocks doubleBlank) \<noteq> []
   \<and> map startLine (tl (findSourceBlocks doubleBlank)) = [0, 3]
   \<and> RUNNERS (documentLanguageId singleBlank) \<noteq> None
   \<and> spec_sectionCount (documentLines singleBlank) = 1
   \<and> tl (findSourceBlocks singleBlank) = []"
proof -
  have h2: "RUNNERS (documentLanguageId doubleBlank) \<noteq> None"
    and h1: "RUNNERS (documentLanguageId singleBlank) \<noteq> None" by code_simp+
  have c2: "spec_sectionCount (documentLines doubleBlank) = 2"
    and c1: "spec_sectionCount (documentLines singleBlank) = 1" by code_simp+
  have f: "map int (filter (spec_sectionStart (documentLines doubleBlank))
      [0..<length (documentLines doubleBlank)]) = [0, 3]" by code_simp
  from section_blocks_iff_two_sections [OF h2] c2 f
  have "tl (findSourceBlocks doubleBlank) \<noteq> []"
    and "map startLine (tl (findSourceBlocks doubleBlank)) = [0, 3]" by simp_all
  moreover from section_blocks_iff_two_sections [OF h1] c1
  have "tl (findSourceBlocks singleBlank) = []" by simp
  ultimately show ?thesis using h1 h2 c1 c2 by blast
qed

text \<open>
  Claim C10. For a source document with a supported language the result never has
  exactly two blocks: it has one block when the document has at most one section, and
  one more block than sections, so three or more, when it has two or more sections.
\<close>

theorem source_block_count_never_two:
  assumes "RUNNERS (documentLanguageId document) \<noteq> None"
  shows "length (findSourceBlocks document) \<noteq> 2
   \<and> (spec_sectionCount (documentLines document) \<le> 1 \<longrightarrow>
        length (findSourceBlocks document) = 1)
   \<and> (2 \<le> spec_sectionCount (documentLines document) \<longrightarrow>
        length (findSourceBlocks document) = 1 + spec_sectionCount (documentLines document)
        \<and> 3 \<le> length (findSourceBlocks document))"
  unfolding findSourceBlocks_supported [OF assms]
  by (auto simp: length_findSections)

theorem source_block_count_never_two_witness:
  "RUNNERS (documentLanguageId doubleBlank) \<noteq> None
   \<and> spec_sectionCount (documentLines doubleBlank) = 2
   \<and> length (findSourceBlocks doubleBlank) = 3
   \<and> RUNNERS (documentLanguageId singleBlank) \<noteq> None
   \<and> spec_sectionCount (documentLines singleBlank) = 1
   \<and> length (findSourceBlocks singleBlank) = 1"
proof -
  have h2: "RUNNERS (documentLanguageId doubleBlank) \<noteq> None"
    and h1: "RUNNERS (documentLanguageId singleBlank) \<noteq> None" by code_simp+
  have c2: "spec_sectionCount (documentLines doubleBlank) = 2"
    and c1: "spec_sectionCount (documentLines singleBlank) = 1" by code_simp+
  from source_block_count_never_two [OF h2] c2
  have "length (findSourceBlocks doubleBlank) = 3" by simp
  moreover from source_block_count_never_two [OF h1] c1
  have "length (findSourceBlocks singleBlank) = 1" by simp
  ultimately show ?thesis using h1 h2 c1 c2 by blast
qed

end
